theory Spec2Isabelle
  imports Main "HOL-Library.Sublist" "HOL-Library.List_Lexorder"
begin

section \<open>Python strings\<close>

text \<open>
  A Python \<^verbatim>\<open>str\<close> is a sequence of Unicode code points. Code points are natural
  numbers here and a string is the list of its code points; \<open>lit\<close> turns an ASCII
  literal of the source into that list.
\<close>

type_synonym codepoint = nat
type_synonym pystr = "codepoint list"

definition lit :: "string \<Rightarrow> pystr" where
  "lit s = map of_char s"

subsection \<open>\<^verbatim>\<open>sub in s\<close> and \<^verbatim>\<open>s.replace(old, new)\<close>\<close>

text \<open>
  \<^verbatim>\<open>sub in s\<close> is true when \<open>sub\<close> occurs at some position of \<open>s\<close> (the empty string
  occurs everywhere, also in the empty string).
\<close>

fun str_contains :: "pystr \<Rightarrow> pystr \<Rightarrow> bool" where
  "str_contains [] sub = (sub = [])"
| "str_contains (c # cs) sub = (prefix sub (c # cs) \<or> str_contains cs sub)"

text \<open>
  \<^verbatim>\<open>s.replace(old, new)\<close> scans \<open>s\<close> from the left; at the leftmost occurrence of \<open>old\<close>
  it emits \<open>new\<close> and resumes behind that occurrence, so occurrences never overlap.
  For the empty \<open>old\<close> Python puts \<open>new\<close> before every character and at the end.
\<close>

fun replace_scan :: "pystr \<Rightarrow> pystr \<Rightarrow> pystr \<Rightarrow> pystr" where
  "replace_scan old new [] = []"
| "replace_scan old new (c # cs) =
     (if prefix old (c # cs) then new @ replace_scan old new (drop (length old - 1) cs)
      else c # replace_scan old new cs)"

definition str_replace :: "pystr \<Rightarrow> pystr \<Rightarrow> pystr \<Rightarrow> pystr" where
  "str_replace s old new =
     (if old = [] then new @ concat (map (\<lambda>c. c # new) s) else replace_scan old new s)"

subsection \<open>\<^verbatim>\<open>re.sub\<close> for a pattern of literal characters\<close>

text \<open>
  The only regular expression of the program, \<^verbatim>\<open>r'ghl\.agency\.ai'\<close>, is a sequence of
  thirteen literal characters (each \<^verbatim>\<open>\.\<close> is the full stop itself). A compiled
  pattern of this shape is a list of atoms, one per character; an atom decides which
  code points it accepts.
\<close>

type_synonym atom = "codepoint \<Rightarrow> bool"

fun match_here :: "atom list \<Rightarrow> pystr \<Rightarrow> bool" where
  "match_here [] s = True"
| "match_here (a # as) [] = False"
| "match_here (a # as) (c # cs) = (a c \<and> match_here as cs)"

text \<open>\<^verbatim>\<open>pattern.search(s) is not None\<close>: the pattern matches at some position.\<close>

fun found :: "atom list \<Rightarrow> pystr \<Rightarrow> bool" where
  "found pat [] = match_here pat []"
| "found pat (c # cs) = (match_here pat (c # cs) \<or> found pat cs)"

text \<open>
  \<^verbatim>\<open>pattern.sub(repl, s)\<close> for a replacement without backslashes: the leftmost match
  is replaced by \<open>repl\<close> and the scan resumes behind it. A pattern without atoms
  matches the empty string at every position.
\<close>

fun sub_scan :: "atom list \<Rightarrow> pystr \<Rightarrow> pystr \<Rightarrow> pystr" where
  "sub_scan pat repl [] = []"
| "sub_scan pat repl (c # cs) =
     (if match_here pat (c # cs) then repl @ sub_scan pat repl (drop (length pat - 1) cs)
      else c # sub_scan pat repl cs)"

definition pattern_sub :: "atom list \<Rightarrow> pystr \<Rightarrow> pystr \<Rightarrow> pystr" where
  "pattern_sub pat repl s =
     (if pat = [] then repl @ concat (map (\<lambda>c. c # repl) s) else sub_scan pat repl s)"

text \<open>
  Without flags a literal character accepts itself only. With \<^verbatim>\<open>re.IGNORECASE\<close> on a
  \<^verbatim>\<open>str\<close> pattern the matcher lower-cases the code point of the subject with the
  simple Unicode lower-case mapping and compares it with the lower-cased pattern
  character and with its entries in the table of case equivalences of the \<^verbatim>\<open>re\<close>
  module.

  \<open>unicode_tolower\<close> is that mapping as far as a pattern of ASCII characters can
  observe it: the code points whose image is an ASCII letter are \<open>A\<close> to \<open>Z\<close>,
  U+0130 (capital I with dot above, image \<open>i\<close>) and U+212A (Kelvin sign, image
  \<open>k\<close>); every other code point is mapped to itself or to another code point beyond
  ASCII that is not U+0131, which no atom below tells apart. \<open>ignorecase_fixes\<close> holds
  the entries of the equivalence table for ASCII keys: \<open>i\<close> with U+0131 (dotless i)
  and \<open>s\<close> with U+017F (long s).
\<close>

definition ascii_letter :: "codepoint \<Rightarrow> bool" where
  "ascii_letter c = ((65 \<le> c \<and> c \<le> 90) \<or> (97 \<le> c \<and> c \<le> 122))"

definition unicode_tolower :: "codepoint \<Rightarrow> codepoint" where
  "unicode_tolower c =
     (if 65 \<le> c \<and> c \<le> 90 then c + 32
      else if c = 0x130 then 0x69
      else if c = 0x212A then 0x6B
      else c)"

definition ignorecase_fixes :: "codepoint \<Rightarrow> codepoint list" where
  "ignorecase_fixes lo =
     (if lo = 0x69 then [0x131] else if lo = 0x73 then [0x17F] else [])"

definition literal_atom :: "codepoint \<Rightarrow> atom" where
  "literal_atom a c = (c = a)"

text \<open>The atom of an ASCII pattern character \<open>a\<close> compiled with \<^verbatim>\<open>re.IGNORECASE\<close>.\<close>

definition ignorecase_atom :: "codepoint \<Rightarrow> atom" where
  "ignorecase_atom a c =
     (if ascii_letter a
      then List.member (unicode_tolower a # ignorecase_fixes (unicode_tolower a)) (unicode_tolower c)
      else c = a)"

text \<open>
  \<^verbatim>\<open>re.sub(pattern, repl, s, flags=re.IGNORECASE)\<close> for a pattern given by its literal
  characters.
\<close>

definition re_sub_ignorecase :: "pystr \<Rightarrow> pystr \<Rightarrow> pystr \<Rightarrow> pystr" where
  "re_sub_ignorecase pattern repl s = pattern_sub (map ignorecase_atom pattern) repl s"

text \<open>\<^verbatim>\<open>re.search(pattern, s, flags=re.IGNORECASE) is not None\<close>.\<close>

definition re_search_ignorecase :: "pystr \<Rightarrow> pystr \<Rightarrow> bool" where
  "re_search_ignorecase pattern s = found (map ignorecase_atom pattern) s"

section \<open>The replacement rules of \<^verbatim>\<open>rebrand_file\<close>\<close>

definition brand_name :: pystr where "brand_name = lit ''GHL Agency AI''"
definition brand_slug :: pystr where "brand_slug = lit ''ghl-agency-ai''"
definition brand_domain :: pystr where "brand_domain = lit ''ghl.agency.ai''"

text \<open>
  Lines 30 to 39 of \<^verbatim>\<open>rebrand_file\<close>: the three rules, each applied to the result of
  the one before.
\<close>

definition rebrand_text :: "pystr \<Rightarrow> pystr" where
  "rebrand_text original_content =
     (let content = original_content;
          content = str_replace content (lit ''GHL Agency AI'') (lit ''Bottleneck Bots'');
          content = str_replace content (lit ''ghl-agency-ai'') (lit ''bottleneck-bots'');
          content = re_sub_ignorecase (lit ''ghl.agency.ai'') (lit ''bottleneckbots.com'') content
      in content)"

text \<open>A text still holds a target when one of the three rules has something to match.\<close>

definition has_target :: "pystr \<Rightarrow> bool" where
  "has_target s =
     (str_contains s brand_name \<or> str_contains s brand_slug \<or> re_search_ignorecase brand_domain s)"

section \<open>Text files\<close>

text \<open>
  \<^verbatim>\<open>open(file_path, 'r', encoding='utf-8', errors='ignore')\<close> decodes the bytes of the
  file as UTF-8 and leaves out every byte sequence that is not well formed; the
  default newline mode then turns \<^verbatim>\<open>\r\n\<close> and a lone \<^verbatim>\<open>\r\<close> into \<^verbatim>\<open>\n\<close>.
  \<^verbatim>\<open>open(file_path, 'w', encoding='utf-8')\<close> encodes strictly. A byte is a \<open>char\<close>,
  the content of a file a \<open>string\<close>; the codec works on the numbers of the bytes.
\<close>

definition is_continuation :: "nat \<Rightarrow> bool" where
  "is_continuation b = (0x80 \<le> b \<and> b < 0xC0)"

text \<open>
  One step of the decoder at the lead byte \<open>b\<close> followed by \<open>bs\<close>: the code point, or
  \<open>None\<close> for a malformed sequence, and the number of bytes of \<open>bs\<close> that the step
  uses up. A malformed sequence ends before the first byte that cannot continue it;
  overlong forms, surrogates and code points beyond U+10FFFF are rejected at the
  second byte; a sequence cut off by the end of the data is malformed as a whole.
\<close>

definition utf8_step :: "nat \<Rightarrow> nat list \<Rightarrow> codepoint option \<times> nat" where
  "utf8_step b bs =
     (if b < 0x80 then (Some b, 0)
      else if b < 0xC2 then (None, 0)
      else if b < 0xE0 then
        (case bs of
           [] \<Rightarrow> (None, 0)
         | b2 # r2 \<Rightarrow>
             if \<not> is_continuation b2 then (None, 0)
             else (Some ((b - 0xC0) * 0x40 + (b2 - 0x80)), 1))
      else if b < 0xF0 then
        (case bs of
           [] \<Rightarrow> (None, 0)
         | b2 # r2 \<Rightarrow>
             if \<not> is_continuation b2 \<or> (b = 0xE0 \<and> b2 < 0xA0) \<or> (b = 0xED \<and> 0xA0 \<le> b2)
             then (None, 0)
             else (case r2 of
                     [] \<Rightarrow> (None, 1)
                   | b3 # r3 \<Rightarrow>
                       if \<not> is_continuation b3 then (None, 1)
                       else (Some ((b - 0xE0) * 0x1000 + (b2 - 0x80) * 0x40 + (b3 - 0x80)), 2)))
      else if b < 0xF5 then
        (case bs of
           [] \<Rightarrow> (None, 0)
         | b2 # r2 \<Rightarrow>
             if \<not> is_continuation b2 \<or> (b = 0xF0 \<and> b2 < 0x90) \<or> (b = 0xF4 \<and> 0x90 \<le> b2)
             then (None, 0)
             else (case r2 of
                     [] \<Rightarrow> (None, 1)
                   | b3 # r3 \<Rightarrow>
                       if \<not> is_continuation b3 then (None, 1)
                       else (case r3 of
                               [] \<Rightarrow> (None, 2)
                             | b4 # r4 \<Rightarrow>
                                 if \<not> is_continuation b4 then (None, 2)
                                 else (Some ((b - 0xF0) * 0x40000 + (b2 - 0x80) * 0x1000
                                               + (b3 - 0x80) * 0x40 + (b4 - 0x80)), 3))))
      else (None, 0))"

text \<open>\<^verbatim>\<open>bytes.decode('utf-8', errors='ignore')\<close>: malformed sequences leave no trace.\<close>

fun utf8_decode_ignore :: "nat list \<Rightarrow> pystr" where
  "utf8_decode_ignore [] = []"
| "utf8_decode_ignore (b # bs) =
     (case utf8_step b bs of
        (None, n) \<Rightarrow> utf8_decode_ignore (drop n bs)
      | (Some c, n) \<Rightarrow> c # utf8_decode_ignore (drop n bs))"

text \<open>
  \<^verbatim>\<open>str.encode('utf-8')\<close>: a surrogate cannot be encoded (\<^verbatim>\<open>UnicodeEncodeError\<close>, here
  \<open>None\<close>); numbers from \<open>0x110000\<close> on are no code points of a Python string.
\<close>

definition utf8_encode_char :: "codepoint \<Rightarrow> nat list option" where
  "utf8_encode_char c =
     (if c < 0x80 then Some [c]
      else if c < 0x800 then Some [0xC0 + c div 0x40, 0x80 + c mod 0x40]
      else if c < 0x10000 then
        (if 0xD800 \<le> c \<and> c < 0xE000 then None
         else Some [0xE0 + c div 0x1000, 0x80 + c div 0x40 mod 0x40, 0x80 + c mod 0x40])
      else if c < 0x110000 then
        Some [0xF0 + c div 0x40000, 0x80 + c div 0x1000 mod 0x40, 0x80 + c div 0x40 mod 0x40,
              0x80 + c mod 0x40]
      else None)"

fun utf8_encode :: "pystr \<Rightarrow> nat list option" where
  "utf8_encode [] = Some []"
| "utf8_encode (c # cs) =
     (case utf8_encode_char c of
        None \<Rightarrow> None
      | Some bs \<Rightarrow> (case utf8_encode cs of None \<Rightarrow> None | Some rest \<Rightarrow> Some (bs @ rest)))"

text \<open>Universal newlines on reading: \<^verbatim>\<open>\r\n\<close> and \<^verbatim>\<open>\r\<close> become \<^verbatim>\<open>\n\<close>.\<close>

fun universal_newlines :: "pystr \<Rightarrow> pystr" where
  "universal_newlines [] = []"
| "universal_newlines (c # cs) =
     (if c = 0x0D then
        (case cs of
           [] \<Rightarrow> [0x0A]
         | d # ds \<Rightarrow> if d = 0x0A then 0x0A # universal_newlines ds else 0x0A # universal_newlines cs)
      else c # universal_newlines cs)"

definition decode_text :: "string \<Rightarrow> pystr" where
  "decode_text bytes = utf8_decode_ignore (map of_char bytes)"

text \<open>What \<^verbatim>\<open>f.read()\<close> returns for a file opened as in line 27.\<close>

definition read_text :: "string \<Rightarrow> pystr" where
  "read_text bytes = universal_newlines (decode_text bytes)"

text \<open>
  What \<^verbatim>\<open>f.write(content)\<close> stores for a file opened as in line 43. The base directory
  is a POSIX path, so the line separator written for \<^verbatim>\<open>\n\<close> is \<^verbatim>\<open>\n\<close> itself.
\<close>

definition encode_text :: "pystr \<Rightarrow> string option" where
  "encode_text content = map_option (map char_of) (utf8_encode content)"

section \<open>The file system and the output\<close>

text \<open>
  A directory entry under the base directory is known by its path relative to the
  base directory, as a string. The entry carries its bytes and what the operating
  system answers when it is opened: \<open>read_failure\<close> is the error of opening it for
  reading (a directory, missing permission), \<open>write_failure\<close> the error of opening it
  for writing. A failed \<^verbatim>\<open>open\<close> leaves the entry as it was.
\<close>

datatype os_error = FileNotFoundError | IsADirectoryError | PermissionError | OtherOSError

datatype py_exception = OSError os_error | UnicodeEncodeError

record file_entry =
  data :: string
  read_failure :: "os_error option"
  write_failure :: "os_error option"

datatype open_mode = ReadMode | WriteMode

text \<open>
  The lines the program prints:
  \<^item> \<open>ErrorProcessing path e\<close> is \<^verbatim>\<open>Error processing {file_path}: {e}\<close>,
  \<^item> \<open>RebrandingComplete\<close> is the empty line followed by \<^verbatim>\<open>Rebranding complete!\<close>,
  \<^item> \<open>UpdatedCount n\<close> is \<^verbatim>\<open>Updated {n} files\<close>,
  \<^item> \<open>FilesUpdatedHeader\<close> is the empty line followed by \<^verbatim>\<open>Files updated:\<close>,
  \<^item> \<open>UpdatedItem f\<close> is \<^verbatim>\<open>  - {f}\<close>,
  \<^item> \<open>AndMore n\<close> is \<^verbatim>\<open>  ... and {n} more\<close>.
\<close>

datatype out_line =
    ErrorProcessing pystr py_exception
  | RebrandingComplete
  | UpdatedCount nat
  | FilesUpdatedHeader
  | UpdatedItem pystr
  | AndMore nat

text \<open>
  The world of one run: \<open>listing\<close> holds the relative paths of all entries below the
  base directory in the order in which a recursive walk yields them, \<open>store\<close> the
  entries, \<open>stdout\<close> the lines printed so far and \<open>opens\<close> every call of \<^verbatim>\<open>open\<close> made
  so far.
\<close>

record world =
  listing :: "pystr list"
  store :: "pystr \<Rightarrow> file_entry option"
  stdout :: "out_line list"
  opens :: "(pystr \<times> open_mode) list"

definition base_dir :: pystr where
  "base_dir = lit ''/root/github-repos/ghl-agency-ai''"

text \<open>\<^verbatim>\<open>str(file_path)\<close> for the entry with the relative path \<open>rel\<close>.\<close>

definition path_str :: "pystr \<Rightarrow> pystr" where
  "path_str rel = base_dir @ lit ''/'' @ rel"

text \<open>\<^verbatim>\<open>file_path.name\<close>: the part behind the last \<^verbatim>\<open>/\<close>.\<close>

definition name_of :: "pystr \<Rightarrow> pystr" where
  "name_of rel = rev (takeWhile (\<lambda>c. c \<noteq> 0x2F) (rev rel))"

definition print_line :: "out_line \<Rightarrow> world \<Rightarrow> world" where
  "print_line l w = w\<lparr>stdout := stdout w @ [l]\<rparr>"

definition new_entry :: file_entry where
  "new_entry = \<lparr>data = [], read_failure = None, write_failure = None\<rparr>"

text \<open>Lines 27 and 28: open for reading and read everything.\<close>

definition open_read :: "pystr \<Rightarrow> world \<Rightarrow> (py_exception + pystr) \<times> world" where
  "open_read rel w =
     (let w' = w\<lparr>opens := opens w @ [(rel, ReadMode)]\<rparr> in
      case store w rel of
        None \<Rightarrow> (Inl (OSError FileNotFoundError), w')
      | Some e \<Rightarrow>
          (case read_failure e of
             Some err \<Rightarrow> (Inl (OSError err), w')
           | None \<Rightarrow> (Inr (read_text (data e)), w')))"

text \<open>
  Lines 43 and 44: opening for writing creates or empties the file; the content is
  encoded as a whole before any byte of it is stored.
\<close>

definition open_write :: "pystr \<Rightarrow> pystr \<Rightarrow> world \<Rightarrow> (py_exception + unit) \<times> world" where
  "open_write rel content w =
     (let w' = w\<lparr>opens := opens w @ [(rel, WriteMode)]\<rparr>;
          e = (case store w rel of None \<Rightarrow> new_entry | Some e \<Rightarrow> e) in
      case write_failure e of
        Some err \<Rightarrow> (Inl (OSError err), w')
      | None \<Rightarrow>
          (case encode_text content of
             None \<Rightarrow> (Inl UnicodeEncodeError, w'\<lparr>store := (store w')(rel \<mapsto> e\<lparr>data := []\<rparr>)\<rparr>)
           | Some bytes \<Rightarrow> (Inr (), w'\<lparr>store := (store w')(rel \<mapsto> e\<lparr>data := bytes\<rparr>)\<rparr>)))"

section \<open>The program\<close>

definition skip_patterns :: "pystr list" where
  "skip_patterns =
     [lit ''node_modules'', lit ''.git'', lit ''package-lock.json'', lit ''.pyc'',
      lit ''__pycache__'', lit ''dist'', lit ''build'', lit ''.cache'']"

definition should_skip :: "pystr \<Rightarrow> bool" where
  "should_skip path = list_ex (\<lambda>pattern. str_contains path pattern) skip_patterns"

text \<open>
  \<^verbatim>\<open>rebrand_file\<close>: every exception of the body is caught, reported and answered with
  \<open>False\<close>.
\<close>

definition rebrand_file :: "pystr \<Rightarrow> world \<Rightarrow> bool \<times> world" where
  "rebrand_file rel w =
     (case open_read rel w of
        (Inl e, w1) \<Rightarrow> (False, print_line (ErrorProcessing (path_str rel) e) w1)
      | (Inr original_content, w1) \<Rightarrow>
          (let content = rebrand_text original_content in
           if content \<noteq> original_content then
             (case open_write rel content w1 of
                (Inl e, w2) \<Rightarrow> (False, print_line (ErrorProcessing (path_str rel) e) w2)
              | (Inr _, w2) \<Rightarrow> (True, w2))
           else (False, w1)))"

definition extensions :: "pystr list" where
  "extensions =
     [lit ''.md'', lit ''.txt'', lit ''.ts'', lit ''.tsx'', lit ''.js'', lit ''.jsx'',
      lit ''.yaml'', lit ''.yml'', lit ''.json'', lit ''.py'', lit ''.sh'',
      lit ''.tpl'', lit ''.html'', lit ''.css'']"

text \<open>
  \<^verbatim>\<open>base_dir.rglob(f'*{ext}')\<close>: the entries, files and directories alike, whose name
  ends with \<open>ext\<close>.
\<close>

definition rglob :: "pystr \<Rightarrow> world \<Rightarrow> pystr list" where
  "rglob ext w = filter (\<lambda>rel. suffix ext (name_of rel)) (listing w)"

text \<open>
  The inner loop of \<^verbatim>\<open>main\<close> over the paths of one extension; the state is the list
  \<open>files_updated\<close> and the world.
\<close>

fun scan_files :: "pystr list \<Rightarrow> pystr list \<times> world \<Rightarrow> pystr list \<times> world" where
  "scan_files [] st = st"
| "scan_files (rel # rest) (files_updated, w) =
     (if should_skip (path_str rel) then scan_files rest (files_updated, w)
      else (case rebrand_file rel w of
              (True, w') \<Rightarrow> scan_files rest (files_updated @ [rel], w')
            | (False, w') \<Rightarrow> scan_files rest (files_updated, w')))"

definition scan_extensions :: "world \<Rightarrow> pystr list \<times> world" where
  "scan_extensions w = fold (\<lambda>ext st. scan_files (rglob ext (snd st)) st) extensions ([], w)"

text \<open>Lines 71 to 79: the report.\<close>

definition report :: "pystr list \<Rightarrow> out_line list" where
  "report files_updated =
     [RebrandingComplete, UpdatedCount (length files_updated)] @
     (if files_updated \<noteq> [] then
        [FilesUpdatedHeader] @ map UpdatedItem (take 50 (sort files_updated)) @
        (if length files_updated > 50 then [AndMore (length files_updated - 50)] else [])
      else [])"

definition main :: "world \<Rightarrow> world" where
  "main w =
     (case scan_extensions w of
        (files_updated, w') \<Rightarrow> w'\<lparr>stdout := stdout w' @ report files_updated\<rparr>)"

section \<open>Notions for stating the properties\<close>

text \<open>Unicode scalar values: the code points that are not surrogates.\<close>

definition valid_scalar :: "codepoint \<Rightarrow> bool" where
  "valid_scalar c = (c < 0xD800 \<or> (0xE000 \<le> c \<and> c < 0x110000))"

text \<open>
  What is read never holds a surrogate or a carriage return, and the rules keep it
  so: the text to write can always be encoded, and reading it back gives it again.
\<close>

definition plain :: "pystr \<Rightarrow> bool" where
  "plain s = list_all (\<lambda>c. valid_scalar c \<and> c \<noteq> 0x0D) s"

text \<open>
  A replacement \<open>repl\<close> blocks a pattern \<open>q\<close> when no match of \<open>q\<close> can touch it: no atom
  of \<open>q\<close> accepts its first or its last character and \<open>q\<close> does not match inside it.
\<close>

definition blocks :: "atom list \<Rightarrow> pystr \<Rightarrow> bool" where
  "blocks q repl =
     (q \<noteq> [] \<and> repl \<noteq> [] \<and> list_all (\<lambda>a. \<not> a (hd repl)) q \<and> list_all (\<lambda>a. \<not> a (last repl)) q
      \<and> \<not> found q (butlast repl))"

text \<open>
  A casing variant of an ASCII string: the same characters up to the case of the
  letters \<open>A\<close> to \<open>Z\<close>.
\<close>

definition ascii_lower :: "codepoint \<Rightarrow> codepoint" where
  "ascii_lower c = (if 65 \<le> c \<and> c \<le> 90 then c + 32 else c)"

definition casing_variant :: "pystr \<Rightarrow> pystr \<Rightarrow> bool" where
  "casing_variant v s = list_all2 (\<lambda>c a. ascii_lower c = ascii_lower a) v s"


text \<open>The text the program reads from an entry.\<close>

definition entry_text :: "file_entry \<Rightarrow> pystr" where
  "entry_text e = read_text (data e)"

text \<open>
  What \<^verbatim>\<open>rebrand_file\<close> does with an entry, read off the entry alone: \<open>changes\<close> says
  that it is read and that the rules alter its text, \<open>updates\<close> that it is then also
  opened for writing, \<open>failure_of\<close> is the exception raised on the way, if any, and
  \<open>rebrand_entry\<close> is the entry afterwards.
\<close>

definition changes :: "file_entry option \<Rightarrow> bool" where
  "changes x =
     (case x of
        None \<Rightarrow> False
      | Some e \<Rightarrow> read_failure e = None \<and> rebrand_text (entry_text e) \<noteq> entry_text e)"

definition updates :: "file_entry option \<Rightarrow> bool" where
  "updates x = (case x of None \<Rightarrow> False | Some e \<Rightarrow> changes x \<and> write_failure e = None)"

definition failure_of :: "file_entry option \<Rightarrow> py_exception option" where
  "failure_of x =
     (case x of
        None \<Rightarrow> Some (OSError FileNotFoundError)
      | Some e \<Rightarrow>
          (case read_failure e of
             Some err \<Rightarrow> Some (OSError err)
           | None \<Rightarrow> if changes x then map_option OSError (write_failure e) else None))"


definition rebrand_entry :: "file_entry \<Rightarrow> file_entry" where
  "rebrand_entry e =
     (if updates (Some e)
      then (case encode_text (rebrand_text (entry_text e)) of
              None \<Rightarrow> e\<lparr>data := []\<rparr>
            | Some bytes \<Rightarrow> e\<lparr>data := bytes\<rparr>)
      else e)"

definition rebranded :: "pystr set \<Rightarrow> (pystr \<Rightarrow> file_entry option) \<Rightarrow> pystr \<Rightarrow> file_entry option" where
  "rebranded S st rel = (if rel \<in> S then map_option rebrand_entry (st rel) else st rel)"

text \<open>
  The entries the walk hands to \<^verbatim>\<open>rebrand_file\<close>: listed, with a name that ends with
  one of the extensions, and not skipped.
\<close>

definition eligible :: "pystr \<Rightarrow> bool" where
  "eligible rel = list_ex (\<lambda>ext. suffix ext (name_of rel)) extensions"

definition visited :: "world \<Rightarrow> pystr set" where
  "visited w = {rel \<in> set (listing w). eligible rel \<and> \<not> should_skip (path_str rel)}"

text \<open>
  The state of the walk after the entries in \<open>S\<close> have been handed to \<^verbatim>\<open>rebrand_file\<close>,
  seen from the world \<open>w0\<close> at the start.
\<close>

definition error_lines :: "pystr set \<Rightarrow> world \<Rightarrow> out_line set" where
  "error_lines S w0 =
     {ErrorProcessing (path_str rel) ex | rel ex. rel \<in> S \<and> failure_of (store w0 rel) = Some ex}"

definition open_calls :: "pystr set \<Rightarrow> world \<Rightarrow> (pystr \<times> open_mode) set" where
  "open_calls S w0 =
     {(rel, ReadMode) | rel. rel \<in> S} \<union> {(rel, WriteMode) | rel. rel \<in> S \<and> changes (store w0 rel)}"

definition walked :: "pystr set \<Rightarrow> world \<Rightarrow> pystr list \<times> world \<Rightarrow> bool" where
  "walked S w0 st =
     (case st of
        (files_updated, w) \<Rightarrow>
          listing w = listing w0
          \<and> store w = rebranded S (store w0)
          \<and> set files_updated = {rel \<in> S. updates (store w0 rel)}
          \<and> set (stdout w) = set (stdout w0) \<union> error_lines S w0
          \<and> set (opens w) = set (opens w0) \<union> open_calls S w0)"


section \<open>Example worlds\<close>

definition text_file :: "string \<Rightarrow> file_entry" where
  "text_file bytes = \<lparr>data = bytes, read_failure = None, write_failure = None\<rparr>"

text \<open>A file that may be read but not written.\<close>

definition locked_file :: "string \<Rightarrow> file_entry" where
  "locked_file bytes = \<lparr>data = bytes, read_failure = None, write_failure = Some PermissionError\<rparr>"

text \<open>A directory: opening it raises \<^verbatim>\<open>IsADirectoryError\<close>.\<close>

definition directory :: file_entry where
  "directory = \<lparr>data = [], read_failure = Some IsADirectoryError,
                 write_failure = Some IsADirectoryError\<rparr>"

definition example_world :: world where
  "example_world =
     \<lparr>listing = [lit ''docs/a.md'', lit ''node_modules/b.js'', lit ''logo.bin'', lit ''locked.txt'',
                 lit ''notes.md'', lit ''old.md''],
      store = [lit ''docs/a.md'' \<mapsto> text_file ''see ghl-agency-ai'',
               lit ''node_modules/b.js'' \<mapsto> text_file ''ghl-agency-ai'',
               lit ''logo.bin'' \<mapsto> text_file ''GHL Agency AI'',
               lit ''locked.txt'' \<mapsto> locked_file ''ghl-agency-ai'',
               lit ''notes.md'' \<mapsto> text_file ''nothing to see'',
               lit ''old.md'' \<mapsto> directory],
      stdout = [], opens = []\<rparr>"

text \<open>
  A file with a target, a byte that is no UTF-8 (\<open>0xFF\<close>) and a Windows line end
  (\<open>0x0D 0x0A\<close>).
\<close>

definition crlf_file :: file_entry where
  "crlf_file = text_file (''ghl-agency-ai'' @ [CHR 0xFF, CHR 0x0D, CHR 0x0A])"

definition crlf_world :: world where
  "crlf_world =
     \<lparr>listing = [lit ''a.txt''], store = [lit ''a.txt'' \<mapsto> crlf_file], stdout = [], opens = []\<rparr>"

text \<open>The same text with a Unix line end and no stray byte, under another name.\<close>

definition lf_world :: world where
  "lf_world =
     \<lparr>listing = [lit ''docs/b.md''],
      store = [lit ''docs/b.md'' \<mapsto> text_file (''ghl-agency-ai'' @ [CHR 0x0A])],
      stdout = [], opens = []\<rparr>"

section \<open>Scanning lemmas\<close>

lemma match_here_literal: "match_here (map literal_atom old) s = prefix old s"
proof (induction old arbitrary: s)
  case Nil
  then show ?case by simp
next
  case (Cons a old)
  then show ?case by (cases s) (auto simp: literal_atom_def)
qed

lemma replace_scan_sub_scan: "replace_scan old new s = sub_scan (map literal_atom old) new s"
  by (induction old new s rule: replace_scan.induct) (simp_all add: match_here_literal)

lemma str_replace_pattern_sub: "str_replace s old new = pattern_sub (map literal_atom old) new s"
  by (simp add: str_replace_def pattern_sub_def replace_scan_sub_scan)

lemma str_contains_found: "str_contains s sub = found (map literal_atom sub) s"
  by (induction s) (simp_all add: match_here_literal)



lemma match_here_within: "length pat \<le> length u \<Longrightarrow> match_here pat (u @ v) = match_here pat u"
  by (induction pat u rule: match_here.induct) simp_all

lemma match_here_barrier:
  "match_here pat (u @ x # v) \<Longrightarrow> \<forall>a \<in> set pat. \<not> a x \<Longrightarrow> length pat \<le> length u"
proof (induction u arbitrary: pat)
  case Nil
  then show ?case by (cases pat) simp_all
next
  case (Cons y u)
  note step = Cons.IH and given = Cons.prems
  show ?case
  proof (cases pat)
    case Nil
    then show ?thesis by simp
  next
    case (Cons a as)
    with given have "match_here as (u @ x # v)" and "\<forall>b \<in> set as. \<not> b x" by auto
    then have "length as \<le> length u" by (rule step)
    with Cons show ?thesis by simp
  qed
qed


lemma found_suffix: "match_here pat t \<Longrightarrow> suffix t s \<Longrightarrow> found pat s"
proof (induction s)
  case Nil
  then show ?case by simp
next
  case (Cons c cs)
  then show ?case by (auto simp: suffix_Cons)
qed

lemma found_split_barrier:
  assumes "\<forall>a \<in> set pat. \<not> a x" and "pat \<noteq> []"
  shows "found pat (u @ x # v) \<Longrightarrow> found pat u \<or> found pat v"
proof (induction u)
  case Nil
  with assms show ?case by (cases pat) simp_all
next
  case (Cons y u)
  from Cons.prems have "match_here pat ((y # u) @ x # v) \<or> found pat (u @ x # v)" by simp
  then show ?case
  proof
    assume m: "match_here pat ((y # u) @ x # v)"
    then have "length pat \<le> length (y # u)" using assms(1) by (rule match_here_barrier)
    with m have "match_here pat (y # u)" by (simp only: match_here_within)
    then show ?thesis by simp
  next
    assume "found pat (u @ x # v)"
    with Cons.IH show ?thesis by auto
  qed
qed

lemma sub_scan_identity: "\<not> found pat s \<Longrightarrow> sub_scan pat repl s = s"
  by (induction s) simp_all

lemma set_sub_scan: "set (sub_scan pat repl s) \<subseteq> set s \<union> set repl"
proof (induction pat repl s rule: sub_scan.induct)
  case (1 pat repl)
  then show ?case by simp
next
  case (2 pat repl c cs)
  have "set (drop (length pat - 1) cs) \<subseteq> set cs" by (rule set_drop_subset)
  with 2 show ?case by (auto split: if_splits)
qed

text \<open>
  A match at the head of the output that starts in untouched text is a match of the
  input: it cannot extend into a replacement whose first character no atom accepts.
\<close>

lemma match_here_sub_scan:
  assumes "\<forall>a \<in> set q. \<not> a x"
  shows "match_here q (u @ sub_scan pat (x # r) t) \<Longrightarrow> match_here q (u @ t)"
proof (induction pat "x # r" t arbitrary: u rule: sub_scan.induct)
  case (1 pat)
  then show ?case by simp
next
  case (2 pat c cs)
  show ?case
  proof (cases "match_here pat (c # cs)")
    case True
    with "2.prems" have m: "match_here q (u @ x # (r @ sub_scan pat (x # r) (drop (length pat - 1) cs)))"
      by simp
    then have "length q \<le> length u" using assms by (rule match_here_barrier)
    with m show ?thesis by (simp only: match_here_within)
  next
    case False
    with "2.prems" have "match_here q ((u @ [c]) @ sub_scan pat (x # r) cs)" by simp
    with False have "match_here q ((u @ [c]) @ cs)" by (rule "2.hyps"(2))
    then show ?thesis by simp
  qed
qed

text \<open>
  After the scan no match of \<open>q\<close> is left, provided every match of \<open>q\<close> in the input
  is a match of the scanned pattern, the first and the last character of the
  replacement are accepted by no atom of \<open>q\<close>, and \<open>q\<close> does not match inside the
  replacement.
\<close>

lemma sub_scan_clean:
  assumes q: "q \<noteq> []"
    and first: "\<forall>a \<in> set q. \<not> a x"
    and last: "\<forall>a \<in> set q. \<not> a z"
    and repl: "x # r = m @ [z]"
    and inside: "\<not> found q m"
  shows "(\<And>t. suffix t s \<Longrightarrow> match_here q t \<Longrightarrow> match_here pat t)
    \<Longrightarrow> \<not> found q (sub_scan pat (x # r) s)"
proof (induction pat "x # r" s rule: sub_scan.induct)
  case (1 pat)
  from q show ?case by (cases q) simp_all
next
  case (2 pat c cs)
  show ?case
  proof (cases "match_here pat (c # cs)")
    case True
    have "\<not> found q (sub_scan pat (x # r) (drop (length pat - 1) cs))"
    proof (rule "2.hyps"(1) [OF True])
      fix t
      assume "suffix t (drop (length pat - 1) cs)" and mt: "match_here q t"
      then have "suffix t (c # cs)"
        by (meson suffix_ConsI suffix_drop suffix_order.trans)
      then show "match_here pat t" using mt by (rule "2.prems")
    qed
    moreover have "sub_scan pat (x # r) (c # cs)
        = m @ z # sub_scan pat (x # r) (drop (length pat - 1) cs)"
      using True repl by simp
    ultimately show ?thesis
      using found_split_barrier [OF last q] inside by metis
  next
    case False
    have "\<not> found q (sub_scan pat (x # r) cs)"
    proof (rule "2.hyps"(2) [OF False])
      fix t
      assume "suffix t cs" and mt: "match_here q t"
      then have "suffix t (c # cs)" by (simp add: suffix_ConsI)
      then show "match_here pat t" using mt by (rule "2.prems")
    qed
    moreover have "\<not> match_here q (c # sub_scan pat (x # r) cs)"
    proof
      assume "match_here q (c # sub_scan pat (x # r) cs)"
      then have "match_here q ([c] @ sub_scan pat (x # r) cs)" by simp
      then have "match_here q ([c] @ cs)" by (rule match_here_sub_scan [OF first])
      then have "match_here pat (c # cs)" using "2.prems" [of "c # cs"] by simp
      with False show False by simp
    qed
    ultimately show ?thesis using False by simp
  qed
qed

lemma blocks_clean:
  assumes "blocks q repl" and "\<And>t. suffix t s \<Longrightarrow> match_here q t \<Longrightarrow> match_here pat t"
  shows "\<not> found q (sub_scan pat repl s)"
proof -
  from assms(1) have ne: "repl \<noteq> []" and q: "q \<noteq> []"
    and first: "\<forall>a \<in> set q. \<not> a (hd repl)" and last: "\<forall>a \<in> set q. \<not> a (last repl)"
    and inside: "\<not> found q (butlast repl)"
    by (auto simp: blocks_def list_all_iff)
  from ne have shape: "hd repl # tl repl = butlast repl @ [last repl]" by simp
  have "\<not> found q (sub_scan pat (hd repl # tl repl) s)"
    using q first last shape inside assms(2) by (rule sub_scan_clean)
  with ne show ?thesis by simp
qed

lemma blocks_removes: "blocks pat repl \<Longrightarrow> \<not> found pat (sub_scan pat repl s)"
  by (rule blocks_clean)

lemma blocks_keeps:
  assumes "blocks q repl" "\<not> found q s"
  shows "\<not> found q (sub_scan pat repl s)"
  using assms(1)
proof (rule blocks_clean)
  fix t
  assume "suffix t s" "match_here q t"
  then have "found q s" by (rule found_suffix [rotated])
  with assms(2) show "match_here pat t" by simp
qed

section \<open>The three rules\<close>

lemma name_blocks_name: "blocks (map literal_atom (lit ''GHL Agency AI'')) (lit ''Bottleneck Bots'')"
  by (simp add: blocks_def lit_def literal_atom_def)

lemma slug_repl_blocks_name: "blocks (map literal_atom (lit ''GHL Agency AI'')) (lit ''bottleneck-bots'')"
  by (simp add: blocks_def lit_def literal_atom_def)

lemma domain_repl_blocks_name:
  "blocks (map literal_atom (lit ''GHL Agency AI'')) (lit ''bottleneckbots.com'')"
  by (simp add: blocks_def lit_def literal_atom_def)

lemma slug_repl_blocks_slug: "blocks (map literal_atom (lit ''ghl-agency-ai'')) (lit ''bottleneck-bots'')"
  by (simp add: blocks_def lit_def literal_atom_def)

lemma domain_repl_blocks_slug:
  "blocks (map literal_atom (lit ''ghl-agency-ai'')) (lit ''bottleneckbots.com'')"
  by (simp add: blocks_def lit_def literal_atom_def)

lemma domain_repl_blocks_domain:
  "blocks (map ignorecase_atom (lit ''ghl.agency.ai'')) (lit ''bottleneckbots.com'')"
  by (simp add: blocks_def lit_def ignorecase_atom_def ascii_letter_def unicode_tolower_def
      ignorecase_fixes_def)

lemma rebrand_text_steps:
  "rebrand_text s =
     sub_scan (map ignorecase_atom (lit ''ghl.agency.ai'')) (lit ''bottleneckbots.com'')
       (sub_scan (map literal_atom (lit ''ghl-agency-ai'')) (lit ''bottleneck-bots'')
         (sub_scan (map literal_atom (lit ''GHL Agency AI'')) (lit ''Bottleneck Bots'') s))"
  by (simp add: rebrand_text_def str_replace_pattern_sub re_sub_ignorecase_def pattern_sub_def
      lit_def)

lemma has_target_found:
  "has_target s =
     (found (map literal_atom (lit ''GHL Agency AI'')) s
      \<or> found (map literal_atom (lit ''ghl-agency-ai'')) s
      \<or> found (map ignorecase_atom (lit ''ghl.agency.ai'')) s)"
  by (simp add: has_target_def str_contains_found re_search_ignorecase_def brand_name_def
      brand_slug_def brand_domain_def)

lemma rebrand_text_clean: "\<not> has_target (rebrand_text s)"
proof -
  let ?s1 = "sub_scan (map literal_atom (lit ''GHL Agency AI'')) (lit ''Bottleneck Bots'') s"
  let ?s2 = "sub_scan (map literal_atom (lit ''ghl-agency-ai'')) (lit ''bottleneck-bots'') ?s1"
  have n1: "\<not> found (map literal_atom (lit ''GHL Agency AI'')) ?s1"
    by (rule blocks_removes [OF name_blocks_name])
  have n2: "\<not> found (map literal_atom (lit ''GHL Agency AI'')) ?s2"
    by (rule blocks_keeps [OF slug_repl_blocks_name n1])
  have g2: "\<not> found (map literal_atom (lit ''ghl-agency-ai'')) ?s2"
    by (rule blocks_removes [OF slug_repl_blocks_slug])
  show ?thesis
    unfolding rebrand_text_steps has_target_found
    using blocks_keeps [OF domain_repl_blocks_name n2] blocks_keeps [OF domain_repl_blocks_slug g2]
      blocks_removes [OF domain_repl_blocks_domain]
    by blast
qed

lemma rebrand_text_identity: "\<not> has_target s \<Longrightarrow> rebrand_text s = s"
  unfolding rebrand_text_steps has_target_found
  by (simp add: sub_scan_identity)

lemma rebrand_text_idem: "rebrand_text (rebrand_text s) = rebrand_text s"
  by (rule rebrand_text_identity) (rule rebrand_text_clean)

lemma list_all_sub_scan:
  "list_all P s \<Longrightarrow> list_all P repl \<Longrightarrow> list_all P (sub_scan pat repl s)"
  using set_sub_scan [of pat repl s] by (auto simp: list_all_iff)

lemma list_all_rebrand_text:
  assumes "list_all P s" and "\<And>c. c < 0x80 \<Longrightarrow> c \<noteq> 0x0D \<Longrightarrow> P c"
  shows "list_all P (rebrand_text s)"
  unfolding rebrand_text_steps
  by (intro list_all_sub_scan assms(1)) (simp_all add: lit_def assms(2))

section \<open>The codec\<close>

lemma decode2:
  "2 \<le> h \<Longrightarrow> h < 32 \<Longrightarrow> l < 64 \<Longrightarrow>
     utf8_decode_ignore ((0xC0 + h) # (0x80 + l) # rest) = (h * 0x40 + l) # utf8_decode_ignore rest"
  by (simp add: utf8_step_def is_continuation_def)

lemma decode3:
  "h < 16 \<Longrightarrow> m < 64 \<Longrightarrow> l < 64 \<Longrightarrow> (h = 0 \<longrightarrow> 32 \<le> m) \<Longrightarrow> (h = 13 \<longrightarrow> m < 32) \<Longrightarrow>
     utf8_decode_ignore ((0xE0 + h) # (0x80 + m) # (0x80 + l) # rest)
       = (h * 0x1000 + m * 0x40 + l) # utf8_decode_ignore rest"
  by (auto simp: utf8_step_def is_continuation_def)

lemma decode4:
  "h < 5 \<Longrightarrow> m < 64 \<Longrightarrow> k < 64 \<Longrightarrow> l < 64 \<Longrightarrow> (h = 0 \<longrightarrow> 16 \<le> m) \<Longrightarrow> (h = 4 \<longrightarrow> m < 16) \<Longrightarrow>
     utf8_decode_ignore ((0xF0 + h) # (0x80 + m) # (0x80 + k) # (0x80 + l) # rest)
       = (h * 0x40000 + m * 0x1000 + k * 0x40 + l) # utf8_decode_ignore rest"
  by (auto simp: utf8_step_def is_continuation_def)

lemma split2:
  fixes c :: nat
  assumes "0x80 \<le> c" "c < 0x800"
  shows "2 \<le> c div 0x40" "c div 0x40 < 32" "c mod 0x40 < 64" "c div 0x40 * 0x40 + c mod 0x40 = c"
  using assms by simp_all

lemma split3:
  fixes c :: nat
  assumes "0x800 \<le> c" "c < 0x10000" "\<not> (0xD800 \<le> c \<and> c < 0xE000)"
  shows "c div 0x1000 < 16 \<and> c div 0x40 mod 0x40 < 64 \<and> c mod 0x40 < 64
    \<and> (c div 0x1000 = 0 \<longrightarrow> 32 \<le> c div 0x40 mod 0x40)
    \<and> (c div 0x1000 = 13 \<longrightarrow> c div 0x40 mod 0x40 < 32)
    \<and> c div 0x1000 * 0x1000 + c div 0x40 mod 0x40 * 0x40 + c mod 0x40 = c"
proof -
  define d l h m where "d = c div 64" and "l = c mod 64" and "h = d div 64" and "m = d mod 64"
  have c: "c = d * 64 + l" and l: "l < 64" by (simp_all add: d_def l_def)
  have d: "d = h * 64 + m" and m: "m < 64" by (simp_all add: h_def m_def)
  have "c div (64 * 64) = c div 64 div 64" by (rule div_mult2_eq)
  then have h: "c div 0x1000 = h" by (simp add: h_def d_def)
  have "h < 16 \<and> m < 64 \<and> l < 64 \<and> (h = 0 \<longrightarrow> 32 \<le> m) \<and> (h = 13 \<longrightarrow> m < 32)
      \<and> h * 0x1000 + m * 0x40 + l = c"
    using c l d m assms by auto
  then show ?thesis by (simp add: h flip: d_def l_def m_def)
qed

lemma split4:
  fixes c :: nat
  assumes "0x10000 \<le> c" "c < 0x110000"
  shows "c div 0x40000 < 5 \<and> c div 0x1000 mod 0x40 < 64 \<and> c div 0x40 mod 0x40 < 64 \<and> c mod 0x40 < 64
    \<and> (c div 0x40000 = 0 \<longrightarrow> 16 \<le> c div 0x1000 mod 0x40)
    \<and> (c div 0x40000 = 4 \<longrightarrow> c div 0x1000 mod 0x40 < 16)
    \<and> c div 0x40000 * 0x40000 + c div 0x1000 mod 0x40 * 0x1000 + c div 0x40 mod 0x40 * 0x40
        + c mod 0x40 = c"
proof -
  define d l e k h m where "d = c div 64" and "l = c mod 64" and "e = d div 64" and "k = d mod 64"
    and "h = e div 64" and "m = e mod 64"
  have c: "c = d * 64 + l" and l: "l < 64" by (simp_all add: d_def l_def)
  have d: "d = e * 64 + k" and k: "k < 64" by (simp_all add: e_def k_def)
  have e: "e = h * 64 + m" and m: "m < 64" by (simp_all add: h_def m_def)
  have "c div (64 * 64) = c div 64 div 64" by (rule div_mult2_eq)
  then have e': "c div 0x1000 = e" by (simp add: e_def d_def)
  have "c div (64 * 64 * 64) = c div (64 * 64) div 64" by (rule div_mult2_eq)
  then have h: "c div 0x40000 = h" using e' by (simp add: h_def)
  have "h < 5 \<and> m < 64 \<and> k < 64 \<and> l < 64 \<and> (h = 0 \<longrightarrow> 16 \<le> m) \<and> (h = 4 \<longrightarrow> m < 16)
      \<and> h * 0x40000 + m * 0x1000 + k * 0x40 + l = c"
    using c l d k e m assms by auto
  then show ?thesis by (simp add: h e' flip: d_def l_def m_def k_def)
qed


lemma decode_encode_char:
  assumes "utf8_encode_char c = Some e"
  shows "utf8_decode_ignore (e @ rest) = c # utf8_decode_ignore rest"
proof -
  consider (one) "c < 0x80" | (two) "0x80 \<le> c" "c < 0x800"
    | (three) "0x800 \<le> c" "c < 0x10000" | (four) "0x10000 \<le> c" "c < 0x110000"
    | (out) "0x110000 \<le> c"
    by linarith
  then show ?thesis
  proof cases
    case one
    with assms have "e = [c]" by (simp add: utf8_encode_char_def)
    with one show ?thesis by (simp add: utf8_step_def)
  next
    case two
    with assms have e: "e = [0xC0 + c div 0x40, 0x80 + c mod 0x40]"
      by (simp add: utf8_encode_char_def)
    show ?thesis unfolding e using decode2 [OF split2(1-3) [OF two], of rest] split2(4) [OF two]
      by simp
  next
    case three
    with assms have ns: "\<not> (0xD800 \<le> c \<and> c < 0xE000)"
      and e: "e = [0xE0 + c div 0x1000, 0x80 + c div 0x40 mod 0x40, 0x80 + c mod 0x40]"
      by (auto simp: utf8_encode_char_def split: if_splits)
    note s = split3 [OF three ns]
    have "utf8_decode_ignore ((0xE0 + c div 0x1000) # (0x80 + c div 0x40 mod 0x40) # (0x80 + c mod 0x40) # rest)
      = (c div 0x1000 * 0x1000 + c div 0x40 mod 0x40 * 0x40 + c mod 0x40) # utf8_decode_ignore rest"
      using s by (intro decode3) simp_all
    with s show ?thesis unfolding e by simp
  next
    case four
    with assms have e: "e = [0xF0 + c div 0x40000, 0x80 + c div 0x1000 mod 0x40,
        0x80 + c div 0x40 mod 0x40, 0x80 + c mod 0x40]"
      by (auto simp: utf8_encode_char_def split: if_splits)
    note s = split4 [OF four]
    have "utf8_decode_ignore ((0xF0 + c div 0x40000) # (0x80 + c div 0x1000 mod 0x40)
        # (0x80 + c div 0x40 mod 0x40) # (0x80 + c mod 0x40) # rest)
      = (c div 0x40000 * 0x40000 + c div 0x1000 mod 0x40 * 0x1000 + c div 0x40 mod 0x40 * 0x40
          + c mod 0x40) # utf8_decode_ignore rest"
      using s by (intro decode4) simp_all
    with s show ?thesis unfolding e by simp
  next
    case out
    with assms show ?thesis by (simp add: utf8_encode_char_def)
  qed
qed

lemma decode_encode: "utf8_encode s = Some bs \<Longrightarrow> utf8_decode_ignore bs = s"
proof (induction s arbitrary: bs)
  case Nil
  then show ?case by simp
next
  case (Cons c cs)
  then obtain e r where "utf8_encode_char c = Some e" "utf8_encode cs = Some r" "bs = e @ r"
    by (auto split: option.splits)
  with Cons.IH show ?case by (simp add: decode_encode_char)
qed

lemma encode_char_bytes: "utf8_encode_char c = Some e \<Longrightarrow> b \<in> set e \<Longrightarrow> b < 256"
proof -
  assume a: "utf8_encode_char c = Some e" and b: "b \<in> set e"
  have m: "\<And>x::nat. x mod 0x40 < 64" by simp
  have "c < 0x800 \<Longrightarrow> c div 0x40 < 32" "c < 0x10000 \<Longrightarrow> c div 0x1000 < 16"
    "c < 0x110000 \<Longrightarrow> c div 0x40000 < 5"
    by (simp_all add: div_less_iff_less_mult)
  with a b show ?thesis
    using m [of c] m [of "c div 0x40"] m [of "c div 0x1000"]
    by (auto simp: utf8_encode_char_def split: if_splits)
qed

lemma encode_char_valid: "valid_scalar c \<Longrightarrow> utf8_encode_char c \<noteq> None"
  by (auto simp: valid_scalar_def utf8_encode_char_def)


lemma valid1: "b < 0x80 \<Longrightarrow> valid_scalar b"
  by (simp add: valid_scalar_def)

lemma valid2:
  assumes "b < 0xE0" "is_continuation b2"
  shows "valid_scalar ((b - 0xC0) * 0x40 + (b2 - 0x80))"
proof -
  define h l where "h = b - 0xC0" and "l = b2 - 0x80"
  have "h < 32" "l < 64" using assms by (auto simp: h_def l_def is_continuation_def)
  then have "h * 0x40 + l < 0xD800" by linarith
  then show ?thesis by (simp add: valid_scalar_def h_def l_def)
qed

lemma valid3:
  assumes "\<not> b < 0xE0" "b < 0xF0" "is_continuation b2" "is_continuation b3" "b = 0xED \<longrightarrow> \<not> 0xA0 \<le> b2"
  shows "valid_scalar ((b - 0xE0) * 0x1000 + (b2 - 0x80) * 0x40 + (b3 - 0x80))"
proof -
  define h m l where "h = b - 0xE0" and "m = b2 - 0x80" and "l = b3 - 0x80"
  have "h < 16" "m < 64" "l < 64" "h = 13 \<longrightarrow> m < 32"
    using assms by (auto simp: h_def m_def l_def is_continuation_def)
  then have "h * 0x1000 + m * 0x40 + l < 0xD800 \<or> (0xE000 \<le> h * 0x1000 + m * 0x40 + l \<and> h * 0x1000 + m * 0x40 + l < 0x110000)"
    by (cases "h < 13"; cases "h = 13") auto
  then show ?thesis by (simp add: valid_scalar_def h_def m_def l_def)
qed

lemma valid4:
  assumes "\<not> b < 0xF0" "b < 0xF5" "is_continuation b2" "is_continuation b3" "is_continuation b4"
    "b = 0xF0 \<longrightarrow> \<not> b2 < 0x90" "b = 0xF4 \<longrightarrow> \<not> 0x90 \<le> b2"
  shows "valid_scalar ((b - 0xF0) * 0x40000 + (b2 - 0x80) * 0x1000 + (b3 - 0x80) * 0x40 + (b4 - 0x80))"
proof -
  define h m k l where "h = b - 0xF0" and "m = b2 - 0x80" and "k = b3 - 0x80" and "l = b4 - 0x80"
  have "h < 5" "m < 64" "k < 64" "l < 64" "h = 0 \<longrightarrow> 16 \<le> m" "h = 4 \<longrightarrow> m < 16"
    using assms by (auto simp: h_def m_def k_def l_def is_continuation_def)
  then have "0xE000 \<le> h * 0x40000 + m * 0x1000 + k * 0x40 + l
      \<and> h * 0x40000 + m * 0x1000 + k * 0x40 + l < 0x110000"
    by (cases "h = 4"; cases "h = 0") auto
  then show ?thesis by (simp add: valid_scalar_def h_def m_def k_def l_def)
qed

lemma step_valid: "utf8_step b bs = (Some c, n) \<Longrightarrow> valid_scalar c"
  unfolding utf8_step_def
  by (auto simp: valid1 valid2 valid3 valid4 split: if_splits list.splits)

lemma decode_valid: "list_all valid_scalar (utf8_decode_ignore bs)"
proof (induction bs rule: utf8_decode_ignore.induct)
  case 1
  then show ?case by simp
next
  case (2 b bs)
  then show ?case by (auto split: option.splits prod.splits dest: step_valid)
qed

section \<open>Casing variants of the domain\<close>







lemmas eval_defs = lit_def literal_atom_def ignorecase_atom_def ascii_letter_def
  unicode_tolower_def ignorecase_fixes_def

text \<open>
  The case-insensitive pattern accepts more than the casing variants: for its last
  letter the \<^verbatim>\<open>re\<close> module also takes U+0130 and U+0131.
\<close>

lemma ignorecase_beyond_ascii:
  "rebrand_text (lit ''ghl.agency.a'' @ [0x130]) = lit ''bottleneckbots.com''"
  "rebrand_text (lit ''ghl.agency.a'' @ [0x131]) = lit ''bottleneckbots.com''"
  "\<not> casing_variant (lit ''ghl.agency.a'' @ [0x131]) brand_domain"
  by (simp_all add: rebrand_text_steps eval_defs casing_variant_def brand_domain_def
      ascii_lower_def)

section \<open>Reading and writing text\<close>

lemma set_universal_newlines: "set (universal_newlines s) \<subseteq> insert 0x0A (set s - {0x0D})"
proof (induction s rule: universal_newlines.induct)
  case 1
  then show ?case by simp
next
  case (2 c cs)
  show ?case
  proof (cases "c = 0x0D")
    case False
    with 2 show ?thesis by auto
  next
    case True
    show ?thesis
    proof (cases cs)
      case Nil
      with True show ?thesis by simp
    next
      case (Cons d ds)
      show ?thesis
      proof (cases "d = 0x0A")
        case lf: True
        have "set (universal_newlines ds) \<subseteq> insert 0x0A (set ds - {0x0D})"
          using True Cons lf by (rule "2.IH"(1))
        with True Cons lf show ?thesis by auto
      next
        case nolf: False
        have "set (universal_newlines cs) \<subseteq> insert 0x0A (set cs - {0x0D})"
          using True Cons nolf by (rule "2.IH"(2))
        moreover have "universal_newlines (c # cs) = 0x0A # universal_newlines cs"
          using True Cons nolf by simp
        ultimately show ?thesis by auto
      qed
    qed
  qed
qed

lemma universal_newlines_id: "0x0D \<notin> set s \<Longrightarrow> universal_newlines s = s"
  by (induction s) simp_all

lemma utf8_encode_total: "list_all valid_scalar s \<Longrightarrow> \<exists>bs. utf8_encode s = Some bs"
proof (induction s)
  case Nil
  then show ?case by simp
next
  case (Cons c cs)
  then obtain r where "utf8_encode cs = Some r" by auto
  moreover from Cons.prems obtain e where "utf8_encode_char c = Some e"
    using encode_char_valid [of c] by auto
  ultimately show ?case by simp
qed

lemma utf8_encode_bytes: "utf8_encode s = Some bs \<Longrightarrow> b \<in> set bs \<Longrightarrow> b < 256"
proof (induction s arbitrary: bs)
  case Nil
  then show ?case by simp
next
  case (Cons c cs)
  then obtain e r where "utf8_encode_char c = Some e" "utf8_encode cs = Some r" "bs = e @ r"
    by (auto split: option.splits)
  with Cons show ?case by (auto dest: encode_char_bytes)
qed

lemma decode_encode_text: "encode_text s = Some d \<Longrightarrow> decode_text d = s"
proof -
  assume "encode_text s = Some d"
  then obtain bs where bs: "utf8_encode s = Some bs" and d: "d = map char_of bs"
    by (auto simp: encode_text_def)
  have "map of_char d = map (\<lambda>b. b mod 256) bs" by (simp add: d)
  also have "\<dots> = bs" using utf8_encode_bytes [OF bs] by (simp add: map_idI)
  finally show ?thesis using decode_encode [OF bs] by (simp add: decode_text_def)
qed

lemma plain_read_text: "plain (read_text d)"
proof -
  have "list_all valid_scalar (decode_text d)" by (simp add: decode_text_def decode_valid)
  moreover have "valid_scalar 0x0A" by (simp add: valid_scalar_def)
  ultimately show ?thesis
    using set_universal_newlines [of "decode_text d"]
    by (auto simp: plain_def read_text_def list_all_iff)
qed

lemma plain_rebrand_text: "plain s \<Longrightarrow> plain (rebrand_text s)"
  unfolding plain_def by (rule list_all_rebrand_text) (simp_all add: valid_scalar_def)

lemma plain_encode: "plain s \<Longrightarrow> \<exists>d. encode_text s = Some d"
proof -
  assume "plain s"
  then have "list_all valid_scalar s" by (simp add: plain_def list_all_iff)
  then show ?thesis using utf8_encode_total [of s] by (auto simp: encode_text_def)
qed

lemma plain_read_back: "plain s \<Longrightarrow> encode_text s = Some d \<Longrightarrow> read_text d = s"
proof -
  assume "plain s" and d: "encode_text s = Some d"
  then have "0x0D \<notin> set s" by (auto simp: plain_def list_all_iff)
  then show ?thesis by (simp add: read_text_def decode_encode_text [OF d] universal_newlines_id)
qed

section \<open>One entry\<close>

lemma updates_written:
  assumes "updates (Some e)"
  obtains bytes where "encode_text (rebrand_text (entry_text e)) = Some bytes"
    and "rebrand_entry e = e\<lparr>data := bytes\<rparr>"
    and "read_text bytes = rebrand_text (entry_text e)"
proof -
  have p: "plain (rebrand_text (entry_text e))"
    by (simp add: entry_text_def plain_rebrand_text plain_read_text)
  then obtain bytes where b: "encode_text (rebrand_text (entry_text e)) = Some bytes"
    using plain_encode by blast
  with assms have "rebrand_entry e = e\<lparr>data := bytes\<rparr>" by (simp add: rebrand_entry_def)
  moreover have "read_text bytes = rebrand_text (entry_text e)" using p b by (rule plain_read_back)
  ultimately show ?thesis using b that by blast
qed

lemma rebrand_entry_same: "\<not> updates (Some e) \<Longrightarrow> rebrand_entry e = e"
  by (simp add: rebrand_entry_def)

lemma rebrand_entry_failures [simp]:
  "read_failure (rebrand_entry e) = read_failure e"
  "write_failure (rebrand_entry e) = write_failure e"
  by (simp_all add: rebrand_entry_def split: option.splits)

lemma entry_text_rebrand_entry:
  "entry_text (rebrand_entry e) = (if updates (Some e) then rebrand_text (entry_text e) else entry_text e)"
proof (cases "updates (Some e)")
  case True
  then show ?thesis by (auto elim!: updates_written simp: entry_text_def)
next
  case False
  then show ?thesis by (simp add: rebrand_entry_same)
qed

lemma changes_rebrand_entry:
  "changes (Some (rebrand_entry e)) = (changes (Some e) \<and> \<not> updates (Some e))"
  by (auto simp: changes_def entry_text_rebrand_entry rebrand_text_idem)

lemma updates_rebrand_entry [simp]: "\<not> updates (Some (rebrand_entry e))"
  by (auto simp: updates_def changes_rebrand_entry)

lemma rebrand_entry_idem [simp]: "rebrand_entry (rebrand_entry e) = rebrand_entry e"
  by (rule rebrand_entry_same) simp

lemma failure_of_rebrand_entry:
  "failure_of (Some (rebrand_entry e)) = failure_of (Some e)"
  by (auto simp: failure_of_def changes_rebrand_entry updates_def split: option.splits)



section \<open>\<^verbatim>\<open>rebrand_file\<close> on one entry\<close>

lemma rebrand_file_result:
  "fst (rebrand_file rel w) = updates (store w rel)"
  "listing (snd (rebrand_file rel w)) = listing w"
  "store (snd (rebrand_file rel w)) = (store w)(rel := map_option rebrand_entry (store w rel))"
  "stdout (snd (rebrand_file rel w))
     = stdout w @ (case failure_of (store w rel) of
                     None \<Rightarrow> []
                   | Some ex \<Rightarrow> [ErrorProcessing (path_str rel) ex])"
  "opens (snd (rebrand_file rel w))
     = opens w @ (rel, ReadMode) # (if changes (store w rel) then [(rel, WriteMode)] else [])"
proof -
  show "listing (snd (rebrand_file rel w)) = listing w"
    by (simp add: rebrand_file_def open_read_def open_write_def print_line_def Let_def
        split: option.splits)
  consider (missing) "store w rel = None"
    | (unreadable) e err where "store w rel = Some e" "read_failure e = Some err"
    | (same) e where "store w rel = Some e" "read_failure e = None"
        "rebrand_text (entry_text e) = entry_text e"
    | (locked) e err where "store w rel = Some e" "read_failure e = None"
        "rebrand_text (entry_text e) \<noteq> entry_text e" "write_failure e = Some err"
    | (written) e where "store w rel = Some e" "updates (Some e)"
  proof (cases "store w rel")
    case None
    then show ?thesis by (rule missing)
  next
    case (Some e)
    show ?thesis
    proof (cases "read_failure e")
      case (Some err)
      with \<open>store w rel = Some e\<close> show ?thesis by (rule unreadable)
    next
      case None
      show ?thesis
      proof (cases "rebrand_text (entry_text e) = entry_text e")
        case True
        with \<open>store w rel = Some e\<close> None show ?thesis by (rule same)
      next
        case False
        show ?thesis
        proof (cases "write_failure e")
          case (Some err)
          with \<open>store w rel = Some e\<close> None False show ?thesis by (rule locked)
        next
          case wn: None
          with None False have "updates (Some e)" by (simp add: updates_def changes_def)
          with \<open>store w rel = Some e\<close> show ?thesis by (rule written)
        qed
      qed
    qed
  qed
  then have "fst (rebrand_file rel w) = updates (store w rel)
    \<and> store (snd (rebrand_file rel w)) = (store w)(rel := map_option rebrand_entry (store w rel))
    \<and> stdout (snd (rebrand_file rel w))
         = stdout w @ (case failure_of (store w rel) of
                         None \<Rightarrow> []
                       | Some ex \<Rightarrow> [ErrorProcessing (path_str rel) ex])
    \<and> opens (snd (rebrand_file rel w))
         = opens w @ (rel, ReadMode) # (if changes (store w rel) then [(rel, WriteMode)] else [])"
  proof cases
    case missing
    then show ?thesis
      using fun_upd_triv [of "store w" rel]
      by (simp add: rebrand_file_def open_read_def print_line_def updates_def changes_def
          failure_of_def)
  next
    case unreadable
    then show ?thesis
      by (simp add: rebrand_file_def open_read_def print_line_def updates_def changes_def
          failure_of_def rebrand_entry_def fun_upd_idem)
  next
    case same
    then show ?thesis
      by (simp add: rebrand_file_def open_read_def print_line_def updates_def changes_def
          failure_of_def rebrand_entry_def fun_upd_idem entry_text_def)
  next
    case locked
    then show ?thesis
      by (simp add: rebrand_file_def open_read_def open_write_def print_line_def updates_def
          changes_def failure_of_def rebrand_entry_def fun_upd_idem entry_text_def)
  next
    case written
    from written(2) obtain bytes where b: "encode_text (rebrand_text (entry_text e)) = Some bytes"
      and r: "rebrand_entry e = e\<lparr>data := bytes\<rparr>"
      by (rule updates_written)
    from written(2) have u: "read_failure e = None" "write_failure e = None"
      "rebrand_text (entry_text e) \<noteq> entry_text e"
      by (simp_all add: updates_def changes_def)
    with written(1) b r show ?thesis
      by (simp add: rebrand_file_def open_read_def open_write_def updates_def changes_def
          failure_of_def entry_text_def)
  qed
  then show "fst (rebrand_file rel w) = updates (store w rel)"
    and "store (snd (rebrand_file rel w)) = (store w)(rel := map_option rebrand_entry (store w rel))"
    and "stdout (snd (rebrand_file rel w))
         = stdout w @ (case failure_of (store w rel) of
                         None \<Rightarrow> []
                       | Some ex \<Rightarrow> [ErrorProcessing (path_str rel) ex])"
    and "opens (snd (rebrand_file rel w))
         = opens w @ (rel, ReadMode) # (if changes (store w rel) then [(rel, WriteMode)] else [])"
    by simp_all
qed


section \<open>The walk\<close>

lemma map_rebrand_entry_idem:
  "map_option rebrand_entry (map_option rebrand_entry x) = map_option rebrand_entry x"
  by (cases x) simp_all

lemma rebranded_insert:
  "(rebranded S st)(rel := map_option rebrand_entry (rebranded S st rel)) = rebranded (insert rel S) st"
  by (auto simp: rebranded_def fun_eq_iff map_rebrand_entry_idem)

lemma updates_rebranded: "updates (rebranded S st rel) = (rel \<notin> S \<and> updates (st rel))"
proof (cases "st rel")
  case None
  then show ?thesis by (simp add: rebranded_def updates_def)
next
  case (Some e)
  then show ?thesis by (simp add: rebranded_def)
qed

lemma changes_rebranded: "changes (rebranded S st rel) \<Longrightarrow> changes (st rel)"
proof (cases "st rel")
  case None
  then show "changes (rebranded S st rel) \<Longrightarrow> changes (st rel)"
    by (simp add: rebranded_def split: if_splits)
next
  case (Some e)
  then show "changes (rebranded S st rel) \<Longrightarrow> changes (st rel)"
    by (simp add: rebranded_def changes_rebrand_entry split: if_splits)
qed

lemma failure_of_rebranded: "failure_of (rebranded S st rel) = failure_of (st rel)"
proof (cases "st rel")
  case None
  then show ?thesis by (simp add: rebranded_def)
next
  case (Some e)
  then show ?thesis by (simp add: rebranded_def failure_of_rebrand_entry)
qed

lemma error_lines_insert:
  "error_lines (insert rel S) w0 =
     error_lines S w0 \<union> (case failure_of (store w0 rel) of
                            None \<Rightarrow> {}
                          | Some ex \<Rightarrow> {ErrorProcessing (path_str rel) ex})"
  by (auto simp: error_lines_def split: option.splits)

lemma open_calls_insert:
  "open_calls (insert rel S) w0 =
     open_calls S w0 \<union> {(rel, ReadMode)} \<union> (if changes (store w0 rel) then {(rel, WriteMode)} else {})"
  by (auto simp: open_calls_def)

lemma walked_start: "walked {} w0 ([], w0)"
  by (simp add: walked_def rebranded_def fun_eq_iff error_lines_def open_calls_def)

lemma walked_step:
  assumes "walked S w0 (files_updated, w)"
  shows "walked (insert rel S) w0
           (if fst (rebrand_file rel w) then files_updated @ [rel] else files_updated,
            snd (rebrand_file rel w))"
proof -
  from assms have l: "listing w = listing w0" and s: "store w = rebranded S (store w0)"
    and f: "set files_updated = {rel \<in> S. updates (store w0 rel)}"
    and out: "set (stdout w) = set (stdout w0) \<union> error_lines S w0"
    and op: "set (opens w) = set (opens w0) \<union> open_calls S w0"
    by (simp_all add: walked_def)
  have "listing (snd (rebrand_file rel w)) = listing w0"
    by (simp add: rebrand_file_result l)
  moreover have "store (snd (rebrand_file rel w)) = rebranded (insert rel S) (store w0)"
    by (simp add: rebrand_file_result s rebranded_insert)
  moreover have "set (if fst (rebrand_file rel w) then files_updated @ [rel] else files_updated)
      = {r \<in> insert rel S. updates (store w0 r)}"
    using f by (auto simp: rebrand_file_result s updates_rebranded)
  moreover have "set (stdout (snd (rebrand_file rel w)))
      = set (stdout w0) \<union> error_lines (insert rel S) w0"
    by (auto simp: rebrand_file_result s failure_of_rebranded out error_lines_insert
        split: option.splits)
  moreover have "set (opens (snd (rebrand_file rel w)))
      = set (opens w0) \<union> open_calls (insert rel S) w0"
  proof (cases "rel \<in> S")
    case True
    then have "insert rel S = S" by auto
    moreover from True have "(rel, ReadMode) \<in> open_calls S w0" by (simp add: open_calls_def)
    moreover have "(rel, WriteMode) \<in> open_calls S w0" if "changes (store w rel)"
      using that True changes_rebranded [of S "store w0" rel] by (simp add: s open_calls_def)
    ultimately show ?thesis by (auto simp: rebrand_file_result op)
  next
    case False
    then have "store w rel = store w0 rel" by (simp add: s rebranded_def)
    then show ?thesis by (auto simp: rebrand_file_result op open_calls_insert)
  qed
  ultimately show ?thesis by (simp add: walked_def)
qed

lemma walked_scan_files:
  "walked S w0 st \<Longrightarrow>
     walked (S \<union> {rel \<in> set ps. \<not> should_skip (path_str rel)}) w0 (scan_files ps st)"
proof (induction ps arbitrary: S st)
  case Nil
  then show ?case by simp
next
  case (Cons rel rest)
  obtain files_updated w where st: "st = (files_updated, w)" by (cases st)
  show ?case
  proof (cases "should_skip (path_str rel)")
    case True
    have "walked (S \<union> {r \<in> set rest. \<not> should_skip (path_str r)}) w0 (scan_files rest st)"
      using Cons.prems by (rule Cons.IH)
    moreover from True have "S \<union> {r \<in> set (rel # rest). \<not> should_skip (path_str r)}
        = S \<union> {r \<in> set rest. \<not> should_skip (path_str r)}"
      by auto
    ultimately show ?thesis using True by (simp add: st)
  next
    case False
    let ?st = "(if fst (rebrand_file rel w) then files_updated @ [rel] else files_updated,
                snd (rebrand_file rel w))"
    have "walked (insert rel S) w0 ?st" using Cons.prems unfolding st by (rule walked_step)
    then have "walked (insert rel S \<union> {r \<in> set rest. \<not> should_skip (path_str r)}) w0
        (scan_files rest ?st)"
      by (rule Cons.IH)
    moreover from False have "S \<union> {r \<in> set (rel # rest). \<not> should_skip (path_str r)}
        = insert rel S \<union> {r \<in> set rest. \<not> should_skip (path_str r)}"
      by auto
    moreover have "scan_files (rel # rest) st = scan_files rest ?st"
      using False by (cases "rebrand_file rel w") (auto simp: st)
    ultimately show ?thesis by simp
  qed
qed

lemma walked_listing: "walked S w0 st \<Longrightarrow> listing (snd st) = listing w0"
  by (cases st) (simp add: walked_def)

lemma walked_fold:
  "walked S w0 st \<Longrightarrow>
     walked (S \<union> {rel \<in> set (listing w0).
                    (\<exists>ext \<in> set exts. suffix ext (name_of rel)) \<and> \<not> should_skip (path_str rel)})
       w0 (fold (\<lambda>ext st. scan_files (rglob ext (snd st)) st) exts st)"
proof (induction exts arbitrary: S st)
  case Nil
  then show ?case by simp
next
  case (Cons ext exts)
  let ?S1 = "S \<union> {rel \<in> set (rglob ext (snd st)). \<not> should_skip (path_str rel)}"
  have "walked ?S1 w0 (scan_files (rglob ext (snd st)) st)"
    using Cons.prems by (rule walked_scan_files)
  then have "walked (?S1 \<union> {rel \<in> set (listing w0).
        (\<exists>e \<in> set exts. suffix e (name_of rel)) \<and> \<not> should_skip (path_str rel)}) w0
      (fold (\<lambda>ext st. scan_files (rglob ext (snd st)) st) exts
        (scan_files (rglob ext (snd st)) st))"
    by (rule Cons.IH)
  moreover have "?S1 \<union> {rel \<in> set (listing w0).
        (\<exists>e \<in> set exts. suffix e (name_of rel)) \<and> \<not> should_skip (path_str rel)}
      = S \<union> {rel \<in> set (listing w0).
        (\<exists>e \<in> set (ext # exts). suffix e (name_of rel)) \<and> \<not> should_skip (path_str rel)}"
    using walked_listing [OF Cons.prems] by (auto simp: rglob_def)
  ultimately show ?case by simp
qed

lemma walked_scan_extensions: "walked (visited w) w (scan_extensions w)"
proof -
  have "walked ({} \<union> {rel \<in> set (listing w).
        (\<exists>ext \<in> set extensions. suffix ext (name_of rel)) \<and> \<not> should_skip (path_str rel)}) w
      (scan_extensions w)"
    unfolding scan_extensions_def using walked_start by (rule walked_fold)
  then show ?thesis by (simp add: visited_def eligible_def list_ex_iff)
qed

text \<open>What a run leaves behind, read off the world at its start.\<close>

lemma scan_files_updated:
  "set (fst (scan_extensions w)) = {rel \<in> visited w. updates (store w rel)}"
  using walked_scan_extensions [of w] by (cases "scan_extensions w") (simp add: walked_def)

lemma main_listing: "listing (main w) = listing w"
  using walked_scan_extensions [of w]
  by (cases "scan_extensions w") (simp add: walked_def main_def)

lemma main_store: "store (main w) = rebranded (visited w) (store w)"
  using walked_scan_extensions [of w]
  by (cases "scan_extensions w") (simp add: walked_def main_def)



lemma visited_main: "visited (main w) = visited w"
  by (simp add: visited_def main_listing)

section \<open>Facts for the claims\<close>



lemma has_target_changes: "has_target s \<Longrightarrow> rebrand_text s \<noteq> s"
  using rebrand_text_clean [of s] by auto
















section \<open>The report\<close>





section \<open>The example files\<close>

lemma crlf_text:
  "decode_text (data crlf_file) = lit ''ghl-agency-ai'' @ [0x0D, 0x0A]"
  "entry_text crlf_file = lit ''ghl-agency-ai'' @ [0x0A]"
  "entry_text (text_file (''ghl-agency-ai'' @ [CHR 0x0A])) = lit ''ghl-agency-ai'' @ [0x0A]"
  by (simp_all add: entry_text_def read_text_def decode_text_def crlf_file_def text_file_def
      utf8_step_def lit_def)

lemma crlf_rebrand:
  "rebrand_text (lit ''ghl-agency-ai'' @ [0x0D, 0x0A]) = lit ''bottleneck-bots'' @ [0x0D, 0x0A]"
  "rebrand_text (lit ''ghl-agency-ai'' @ [0x0A]) = lit ''bottleneck-bots'' @ [0x0A]"
  by (simp_all add: rebrand_text_steps eval_defs)

lemma crlf_encode:
  "encode_text (lit ''bottleneck-bots'' @ [0x0D, 0x0A]) = Some (''bottleneck-bots'' @ [CHR 0x0D, CHR 0x0A])"
  "encode_text (lit ''bottleneck-bots'' @ [0x0A]) = Some (''bottleneck-bots'' @ [CHR 0x0A])"
  by (simp_all add: encode_text_def utf8_encode_char_def lit_def char_of_def bit_Suc_0_iff)

section \<open>Line ends and the targets\<close>







section \<open>The claims\<close>




text \<open>
  C2. The transformation of a text is idempotent, and a second run changes no file:
  the store after two runs is the store after one, and the second run records no file
  as updated.
\<close>

theorem C2_idempotent:
  "rebrand_text (rebrand_text s) = rebrand_text s
   \<and> store (main (main w)) = store (main w)
   \<and> fst (scan_extensions (main w)) = []"
proof (intro conjI)
  show "rebrand_text (rebrand_text s) = rebrand_text s" by (rule rebrand_text_idem)
  show "store (main (main w)) = store (main w)"
    by (auto simp: main_store visited_main rebranded_def fun_eq_iff map_rebrand_entry_idem)
  have "set (fst (scan_extensions (main w))) = {}"
    by (auto simp: scan_files_updated visited_main main_store updates_rebranded)
  then show "fst (scan_extensions (main w)) = []" by simp
qed

theorem C2_idempotent_witness:
  "rebrand_text (lit ''GHL Agency AI at GHL.AGENCY.AI'') = lit ''Bottleneck Bots at bottleneckbots.com''
   \<and> rebrand_text (lit ''Bottleneck Bots at bottleneckbots.com'')
       = lit ''Bottleneck Bots at bottleneckbots.com''
   \<and> store (main (main example_world)) = store (main example_world)
   \<and> fst (scan_extensions (main example_world)) = []"
proof -
  have "rebrand_text (lit ''GHL Agency AI at GHL.AGENCY.AI'') = lit ''Bottleneck Bots at bottleneckbots.com''"
    by (simp add: rebrand_text_steps eval_defs)
  with C2_idempotent [of "lit ''GHL Agency AI at GHL.AGENCY.AI''" example_world]
  show ?thesis by simp
qed













text \<open>
  C9. What \<^verbatim>\<open>rebrand_file\<close> decides and produces depends on the text read from the entry
  and on nothing else of the world: two entries, in any two worlds and under any two
  paths, with the same text (and the same answer of the system to opening them for
  writing) get the same decision, the same answer, the same text afterwards and, when
  written, the same bytes; the same holds for what a whole run leaves of them.
\<close>

theorem C9_depends_on_text_only:
  assumes "store w rel = Some e" and "store w' rel' = Some e'"
    and "read_failure e = None" and "read_failure e' = None"
    and "entry_text e = entry_text e'"
    and "write_failure e = write_failure e'"
  shows "changes (store w rel) = changes (store w' rel')
    \<and> fst (rebrand_file rel w) = fst (rebrand_file rel' w')
    \<and> map_option entry_text (store (snd (rebrand_file rel w)) rel)
        = map_option entry_text (store (snd (rebrand_file rel' w')) rel')
    \<and> (fst (rebrand_file rel w) \<longrightarrow>
         map_option data (store (snd (rebrand_file rel w)) rel)
           = map_option data (store (snd (rebrand_file rel' w')) rel'))
    \<and> (rel \<in> visited w \<and> rel' \<in> visited w' \<longrightarrow>
         map_option entry_text (store (main w) rel) = map_option entry_text (store (main w') rel'))"
proof -
  from assms have c: "changes (Some e) = changes (Some e')" by (simp add: changes_def)
  with assms(6) have u: "updates (Some e) = updates (Some e')" by (simp add: updates_def)
  have t: "entry_text (rebrand_entry e) = entry_text (rebrand_entry e')"
    using u assms(5) by (simp add: entry_text_rebrand_entry)
  have d: "data (rebrand_entry e) = data (rebrand_entry e')" if "updates (Some e)"
    using that u assms(5) by (auto simp: rebrand_entry_def split: option.splits)
  show ?thesis
    using assms(1,2) c u t d by (simp add: rebrand_file_result main_store rebranded_def)
qed

theorem C9_depends_on_text_only_witness:
  "store crlf_world (lit ''a.txt'') = Some crlf_file
   \<and> store lf_world (lit ''docs/b.md'') = Some (text_file (''ghl-agency-ai'' @ [CHR 0x0A]))
   \<and> data crlf_file \<noteq> data (text_file (''ghl-agency-ai'' @ [CHR 0x0A]))
   \<and> entry_text crlf_file = entry_text (text_file (''ghl-agency-ai'' @ [CHR 0x0A]))
   \<and> fst (rebrand_file (lit ''a.txt'') crlf_world) = fst (rebrand_file (lit ''docs/b.md'') lf_world)
   \<and> map_option entry_text (store (snd (rebrand_file (lit ''a.txt'') crlf_world)) (lit ''a.txt''))
       = map_option entry_text
           (store (snd (rebrand_file (lit ''docs/b.md'') lf_world)) (lit ''docs/b.md''))"
proof -
  have a: "store crlf_world (lit ''a.txt'') = Some crlf_file"
    by (simp add: crlf_world_def)
  have b: "store lf_world (lit ''docs/b.md'') = Some (text_file (''ghl-agency-ai'' @ [CHR 0x0A]))"
    by (simp add: lf_world_def)
  have r: "read_failure crlf_file = None"
    "read_failure (text_file (''ghl-agency-ai'' @ [CHR 0x0A])) = None"
    by (simp_all add: crlf_file_def text_file_def)
  have t: "entry_text crlf_file = entry_text (text_file (''ghl-agency-ai'' @ [CHR 0x0A]))"
    by (simp only: crlf_text)
  have x: "write_failure crlf_file = write_failure (text_file (''ghl-agency-ai'' @ [CHR 0x0A]))"
    by (simp add: crlf_file_def text_file_def)
  have n: "data crlf_file \<noteq> data (text_file (''ghl-agency-ai'' @ [CHR 0x0A]))"
    by (simp add: crlf_file_def text_file_def)
  from C9_depends_on_text_only [OF a b r t x] a b n t show ?thesis by blast
qed

text \<open>
  C10, as stated: the bytes written are the UTF-8 encoding of the transformed decoding
  (undecodable bytes ignored) of the original bytes. The file of \<open>crlf_world\<close> holds
  the slug, a stray byte and a line end \<^verbatim>\<open>\r\n\<close>; it is rewritten with the line end
  \<^verbatim>\<open>\n\<close>, while the encoding of its transformed decoding ends with \<^verbatim>\<open>\r\n\<close>.
\<close>

theorem C10_counterexample:
  "store crlf_world (lit ''a.txt'') = Some crlf_file
   \<and> data crlf_file = ''ghl-agency-ai'' @ [CHR 0xFF, CHR 0x0D, CHR 0x0A]
   \<and> fst (rebrand_file (lit ''a.txt'') crlf_world)
   \<and> map_option data (store (snd (rebrand_file (lit ''a.txt'') crlf_world)) (lit ''a.txt''))
       = Some (''bottleneck-bots'' @ [CHR 0x0A])
   \<and> encode_text (rebrand_text (decode_text (data crlf_file)))
       = Some (''bottleneck-bots'' @ [CHR 0x0D, CHR 0x0A])"
proof -
  have a: "store crlf_world (lit ''a.txt'') = Some crlf_file"
    by (simp add: crlf_world_def)
  have u: "updates (Some crlf_file)"
    by (simp add: updates_def changes_def crlf_text crlf_rebrand)
      (simp add: crlf_file_def text_file_def lit_def)
  then have "rebrand_entry crlf_file = crlf_file\<lparr>data := ''bottleneck-bots'' @ [CHR 0x0A]\<rparr>"
    by (simp add: rebrand_entry_def crlf_text crlf_rebrand crlf_encode)
  with a u show ?thesis
    by (simp add: rebrand_file_result crlf_text crlf_rebrand crlf_encode)
      (simp add: crlf_file_def text_file_def)
qed

text \<open>
  C10, amended: a file that holds a target and can be read and written is rewritten
  with exactly the UTF-8 encoding of the transformed text that was read, and the text
  read is the decoding of the original bytes, undecodable bytes ignored, in which
  every \<^verbatim>\<open>\r\n\<close> and every other \<^verbatim>\<open>\r\<close> has become \<^verbatim>\<open>\n\<close>. The encoding never fails, the
  new bytes decode to that transformed text without loss, and for a file without
  \<^verbatim>\<open>\r\<close> they are the encoding of the transformed decoding of the original.
\<close>

theorem C10_written_bytes:
  assumes "store w rel = Some e" and "read_failure e = None" and "write_failure e = None"
    and "has_target (entry_text e)"
  shows "fst (rebrand_file rel w)
    \<and> (\<exists>bytes. encode_text (rebrand_text (universal_newlines (decode_text (data e)))) = Some bytes
          \<and> map_option data (store (snd (rebrand_file rel w)) rel) = Some bytes
          \<and> decode_text bytes = rebrand_text (universal_newlines (decode_text (data e))))
    \<and> (0x0D \<notin> set (decode_text (data e)) \<longrightarrow>
         map_option data (store (snd (rebrand_file rel w)) rel)
           = encode_text (rebrand_text (decode_text (data e))))"
proof -
  from assms(2-4) have u: "updates (Some e)"
    using has_target_changes by (simp add: updates_def changes_def)
  then obtain bytes where b: "encode_text (rebrand_text (entry_text e)) = Some bytes"
    and r: "rebrand_entry e = e\<lparr>data := bytes\<rparr>"
    by (rule updates_written)
  have t: "entry_text e = universal_newlines (decode_text (data e))"
    by (simp add: entry_text_def read_text_def)
  have "decode_text bytes = rebrand_text (entry_text e)" using b by (rule decode_encode_text)
  with assms(1) u b r show ?thesis
    by (auto simp: rebrand_file_result t universal_newlines_id)
qed

theorem C10_written_bytes_witness:
  "store crlf_world (lit ''a.txt'') = Some crlf_file
   \<and> has_target (entry_text crlf_file)
   \<and> rebrand_text (universal_newlines (decode_text (data crlf_file))) = lit ''bottleneck-bots'' @ [0x0A]
   \<and> fst (rebrand_file (lit ''a.txt'') crlf_world)
   \<and> map_option data (store (snd (rebrand_file (lit ''a.txt'') crlf_world)) (lit ''a.txt''))
       = Some (''bottleneck-bots'' @ [CHR 0x0A])"
proof -
  have a: "store crlf_world (lit ''a.txt'') = Some crlf_file"
    by (simp add: crlf_world_def)
  have f: "read_failure crlf_file = None" "write_failure crlf_file = None"
    by (simp_all add: crlf_file_def text_file_def)
  have h: "has_target (entry_text crlf_file)"
    by (simp add: crlf_text) (simp add: has_target_found eval_defs)
  have t: "rebrand_text (universal_newlines (decode_text (data crlf_file)))
      = lit ''bottleneck-bots'' @ [0x0A]"
    using crlf_text(2) crlf_rebrand(2) by (simp add: entry_text_def read_text_def)
  from C10_written_bytes [OF a f h] a h t show ?thesis
    by (auto simp: crlf_encode)
qed

end
